theory Spec2Isabelle
  imports Main
begin

section \<open>Strings and regular-expression helpers\<close>

text \<open>
  A JavaScript string is modelled as the list of its code units; the model covers the
  code units below 256, so a string is a \<open>char list\<close>. The class \<open>\s\<close> of the regular
  expressions (and the set removed by \<open>trim\<close>) is, in that range, TAB, LF, VT, FF, CR,
  SPACE and NBSP.
\<close>

abbreviation LF :: char where "LF \<equiv> CHR 0x0A"
abbreviation CR :: char where "CR \<equiv> CHR 0x0D"

definition isSpace :: "char \<Rightarrow> bool" where
  "isSpace c \<longleftrightarrow>
     c = CHR 0x09 \<or> c = CHR 0x0A \<or> c = CHR 0x0B \<or> c = CHR 0x0C \<or> c = CHR 0x0D
     \<or> c = CHR 0x20 \<or> c = CHR 0xA0"

text \<open>\<open>s.trim()\<close>, \<open>s.replace(/\s*$/, "")\<close> and \<open>s.replace(/\n*$/, "\n")\<close>.\<close>

definition trimEnd :: "string \<Rightarrow> string" where
  "trimEnd s = rev (dropWhile isSpace (rev s))"

definition trim :: "string \<Rightarrow> string" where
  "trim s = trimEnd (dropWhile isSpace s)"

definition singleTrailingNewline :: "string \<Rightarrow> string" where
  "singleTrailingNewline s = rev (dropWhile (\<lambda>c. c = LF) (rev s)) @ [LF]"

text \<open>
  \<open>content.split(/\r?\n/)\<close>: the separator is matched from the left, so a CR directly
  before an LF belongs to the separator and any other CR stays in its line. The empty
  string gives one empty line.
\<close>

fun consHead :: "char \<Rightarrow> string list \<Rightarrow> string list" where
  "consHead c [] = [[c]]"
| "consHead c (l # ls) = (c # l) # ls"

fun splitLines :: "string \<Rightarrow> string list" where
  "splitLines [] = [[]]"
| "splitLines [c] = (if c = LF then [[], []] else [[c]])"
| "splitLines (c # d # cs) =
     (if c = CR \<and> d = LF then [] # splitLines cs
      else if c = LF then [] # splitLines (d # cs)
      else consHead c (splitLines (d # cs)))"

text \<open>\<open>lines.join("\n")\<close>.\<close>

fun joinNl :: "string list \<Rightarrow> string" where
  "joinNl [] = []"
| "joinNl [l] = l"
| "joinNl (l # m # ls) = l @ LF # joinNl (m # ls)"

section \<open>Line classifier\<close>

definition WARNING_MISSING_IN_SOURCES :: string where
  "WARNING_MISSING_IN_SOURCES = ''# NOTE: Key not found in .env or .env.local''"

definition isBlankLine :: "string \<Rightarrow> bool" where
  "isBlankLine line \<longleftrightarrow> list_all isSpace line"

definition isCommentLine :: "string \<Rightarrow> bool" where
  "isCommentLine line \<longleftrightarrow>
     (case dropWhile isSpace line of [] \<Rightarrow> False | c # _ \<Rightarrow> c = CHR ''#'')"

text \<open>\<open>line.replace(/^\s*export\s+/, "")\<close>.\<close>

definition stripExportPrefix :: "string \<Rightarrow> string" where
  "stripExportPrefix line =
     (let r = dropWhile isSpace line; t = drop 6 r
      in if take 6 r = ''export'' \<and> t \<noteq> [] \<and> isSpace (hd t)
         then dropWhile isSpace t else line)"

text \<open>
  The scanner of \<open>findUnquotedEqualsIndex\<close>, with its two flags and the index as
  arguments; \<open>None\<close> stands for the result \<open>-1\<close>.
\<close>

fun scanEquals :: "bool \<Rightarrow> bool \<Rightarrow> nat \<Rightarrow> string \<Rightarrow> nat option" where
  "scanEquals inSingle inDouble i [] = None"
| "scanEquals inSingle inDouble i (ch # rest) =
     (if ch = CHR 0x27 \<and> \<not> inDouble then scanEquals (\<not> inSingle) inDouble (Suc i) rest
      else if ch = CHR 0x22 \<and> \<not> inSingle then scanEquals inSingle (\<not> inDouble) (Suc i) rest
      else if ch = CHR ''='' \<and> \<not> inSingle \<and> \<not> inDouble then Some i
      else scanEquals inSingle inDouble (Suc i) rest)"

definition findUnquotedEqualsIndex :: "string \<Rightarrow> nat option" where
  "findUnquotedEqualsIndex line = scanEquals False False 0 line"

text \<open>
  The object that \<open>parseAssignment\<close> returns; its field \<open>value\<close> is \<open>val\<close> here.
\<close>

record assignment =
  key :: string
  val :: string
  rawKey :: string
  rawValue :: string

definition parseAssignment :: "string \<Rightarrow> assignment option" where
  "parseAssignment line =
     (let withoutExport = stripExportPrefix line
      in case findUnquotedEqualsIndex withoutExport of
           None \<Rightarrow> None
         | Some idx \<Rightarrow>
             Some \<lparr>key = trim (take idx withoutExport),
                   val = drop (Suc idx) withoutExport,
                   rawKey = take idx withoutExport,
                   rawValue = drop (Suc idx) withoutExport\<rparr>)"

section \<open>Tokenizer\<close>

datatype token =
    Blank (raw: string)
  | Comment (raw: string)
  | Assignment (raw: string) (parsed: assignment)

fun isAssignment :: "token \<Rightarrow> bool" where
  "isAssignment (Assignment r a) = True"
| "isAssignment t = False"

text \<open>The body of the loop of \<open>tokenizeEnvFile\<close>, for one line.\<close>

definition tokenizeLine :: "string \<Rightarrow> token" where
  "tokenizeLine line =
     (if isBlankLine line then Blank line
      else if isCommentLine line then Comment line
      else case parseAssignment line of
             None \<Rightarrow> Comment line
           | Some a \<Rightarrow> if key a \<noteq> [] then Assignment line a else Comment line)"

definition tokenizeEnvFile :: "string \<Rightarrow> token list" where
  "tokenizeEnvFile content = map tokenizeLine (splitLines content)"

text \<open>\<open>content ? tokenizeEnvFile(content) : []\<close>: the empty string is falsy.\<close>

definition sourceTokens :: "string \<Rightarrow> token list" where
  "sourceTokens content = (if content \<noteq> [] then tokenizeEnvFile content else [])"

text \<open>The keys of the assignment tokens, in order.\<close>

fun assignmentKeys :: "token list \<Rightarrow> string list" where
  "assignmentKeys [] = []"
| "assignmentKeys (Assignment r a # ts) = key a # assignmentKeys ts"
| "assignmentKeys (t # ts) = assignmentKeys ts"

section \<open>Key indexer and merger\<close>

text \<open>
  An entry \<open>{ key, commentsBefore }\<close> of the index; its field \<open>key\<close> is \<open>ekey\<close> here, to
  keep it apart from the key of a parsed assignment.
\<close>

record keyEntry =
  ekey :: string
  commentsBefore :: "string list"

record keyIndex =
  entries :: "keyEntry list"
  trailing :: "string list"

text \<open>
  The loop of \<open>buildKeyIndexWithLeadingComments\<close> with its three variables \<open>seen\<close>,
  \<open>entries\<close> and \<open>pending\<close> as arguments.
\<close>

fun indexLoop :: "string set \<Rightarrow> keyEntry list \<Rightarrow> string list \<Rightarrow> token list \<Rightarrow> keyIndex" where
  "indexLoop seen es pending [] = \<lparr>entries = es, trailing = pending\<rparr>"
| "indexLoop seen es pending (Blank r # ts) = indexLoop seen es (pending @ [r]) ts"
| "indexLoop seen es pending (Comment r # ts) = indexLoop seen es (pending @ [r]) ts"
| "indexLoop seen es pending (Assignment r a # ts) =
     (if key a \<notin> seen
      then indexLoop (insert (key a) seen)
             (es @ [\<lparr>ekey = key a, commentsBefore = pending\<rparr>]) [] ts
      else indexLoop seen es [] ts)"

definition buildKeyIndexWithLeadingComments :: "token list \<Rightarrow> keyIndex" where
  "buildKeyIndexWithLeadingComments tokens = indexLoop {} [] [] tokens"

record mergedKeys =
  orderedEntries :: "keyEntry list"
  trailingPrimary :: "string list"
  trailingSecondary :: "string list"

fun mergeLoop :: "string set \<Rightarrow> keyEntry list \<Rightarrow> keyEntry list \<Rightarrow> keyEntry list" where
  "mergeLoop seen merged [] = merged"
| "mergeLoop seen merged (e # es) =
     (if ekey e \<notin> seen then mergeLoop (insert (ekey e) seen) (merged @ [e]) es
      else mergeLoop seen merged es)"

definition uniqueKeyOrderFromTokens :: "token list \<Rightarrow> token list \<Rightarrow> mergedKeys" where
  "uniqueKeyOrderFromTokens primaryTokens secondaryTokens =
     (let p = buildKeyIndexWithLeadingComments primaryTokens;
          seen = set (map ekey (entries p));
          s = buildKeyIndexWithLeadingComments secondaryTokens
      in \<lparr>orderedEntries = mergeLoop seen (entries p) (entries s),
          trailingPrimary = trailing p,
          trailingSecondary = trailing s\<rparr>)"

definition parseKeysFromContent :: "string \<Rightarrow> string set" where
  "parseKeysFromContent content = set (assignmentKeys (tokenizeEnvFile content))"

section \<open>Template builder\<close>

text \<open>
  The loop over \<open>orderedEntries\<close> in \<open>buildExampleFromScratch\<close>; \<open>lines\<close> and
  \<open>firstEntryProcessed\<close> are its variables.
\<close>

fun emitEntries :: "string list \<Rightarrow> string list \<Rightarrow> bool \<Rightarrow> keyEntry list \<Rightarrow> string list" where
  "emitEntries leading lines firstEntryProcessed [] = lines"
| "emitEntries leading lines firstEntryProcessed (e # es) =
     (let lines1 =
            (if commentsBefore e \<noteq> [] then
               (if \<not> firstEntryProcessed \<and> leading \<noteq> [] then
                  (if leading = commentsBefore e then lines
                   else lines @ commentsBefore e)
                else lines @ commentsBefore e)
             else lines)
      in emitEntries leading (lines1 @ [ekey e @ ''='']) True es)"

definition buildExampleFromScratch :: "string \<Rightarrow> string \<Rightarrow> string" where
  "buildExampleFromScratch envContent envLocalContent =
     (let envTokens = sourceTokens envContent;
          envLocalTokens = sourceTokens envLocalContent;
          m = uniqueKeyOrderFromTokens envTokens envLocalTokens;
          leading = map raw (takeWhile (\<lambda>t. \<not> isAssignment t) envTokens);
          lines = emitEntries leading leading False (orderedEntries m);
          trailing = (if trailingPrimary m \<noteq> [] then trailingPrimary m
                      else trailingSecondary m)
      in joinNl (lines @ trailing) @ [LF])"

section \<open>Template patcher\<close>

text \<open>
  \<open>nowStamp()\<close> reads the clock; the string it returns is the argument \<open>stamp\<close> of the
  patcher.
\<close>

definition sectionHeader :: "string \<Rightarrow> string" where
  "sectionHeader stamp = ''# --- Added by copy-env-keys-to-env-example on '' @ stamp @ '' ---''"

fun appendEntries :: "string list \<Rightarrow> keyEntry list \<Rightarrow> string list" where
  "appendEntries lines [] = lines"
| "appendEntries lines (e # es) =
     appendEntries ((if commentsBefore e \<noteq> [] then lines @ commentsBefore e else lines)
                    @ [ekey e @ ''='']) es"

definition missingEntries :: "string \<Rightarrow> string \<Rightarrow> string \<Rightarrow> keyEntry list" where
  "missingEntries exampleContent envContent envLocalContent =
     (let exampleKeys = set (assignmentKeys (tokenizeEnvFile exampleContent));
          m = uniqueKeyOrderFromTokens (sourceTokens envContent) (sourceTokens envLocalContent)
      in filter (\<lambda>e. ekey e \<notin> exampleKeys) (orderedEntries m))"

definition appendMissingKeysToExample :: "string \<Rightarrow> string \<Rightarrow> string \<Rightarrow> string \<Rightarrow> string" where
  "appendMissingKeysToExample stamp exampleContent envContent envLocalContent =
     (let missing = missingEntries exampleContent envContent envLocalContent
      in if missing = [] then exampleContent
         else joinNl (appendEntries (splitLines (trimEnd exampleContent) @ [sectionHeader stamp])
                        missing) @ [LF])"

section \<open>Unknown-key annotator\<close>

definition prevIsWarning :: "string list \<Rightarrow> bool" where
  "prevIsWarning output \<longleftrightarrow>
     (case dropWhile isBlankLine (rev output) of
        [] \<Rightarrow> False
      | l # _ \<Rightarrow> l = WARNING_MISSING_IN_SOURCES)"

fun markLoop :: "string set \<Rightarrow> string list \<Rightarrow> string list \<Rightarrow> string list" where
  "markLoop presentKeys output [] = output"
| "markLoop presentKeys output (line # lines) =
     (let output1 =
            (case parseAssignment line of
               None \<Rightarrow> output
             | Some a \<Rightarrow>
                 if key a \<noteq> [] \<and> key a \<notin> presentKeys \<and> \<not> prevIsWarning output
                 then output @ [WARNING_MISSING_IN_SOURCES] else output)
      in markLoop presentKeys (output1 @ [line]) lines)"

definition markUnknownKeysInExample :: "string \<Rightarrow> string \<Rightarrow> string \<Rightarrow> string" where
  "markUnknownKeysInExample exampleContent envContent envLocalContent =
     (let presentKeys = set (assignmentKeys (sourceTokens envContent))
                        \<union> set (assignmentKeys (sourceTokens envLocalContent))
      in singleTrailingNewline (joinNl (markLoop presentKeys [] (splitLines exampleContent))))"

text \<open>The existing-template path of \<open>main\<close>: annotate, then append.\<close>

definition patchPipeline :: "string \<Rightarrow> string \<Rightarrow> string \<Rightarrow> string \<Rightarrow> string" where
  "patchPipeline stamp exampleContent envContent envLocalContent =
     appendMissingKeysToExample stamp
       (markUnknownKeysInExample exampleContent envContent envLocalContent)
       envContent envLocalContent"

section \<open>Notions used to state the properties\<close>

text \<open>
  First-occurrence order: the elements of a list, each kept at its first position only.
\<close>

fun firstOccurrences :: "'a list \<Rightarrow> 'a list" where
  "firstOccurrences [] = []"
| "firstOccurrences (x # xs) = x # filter (\<lambda>y. y \<noteq> x) (firstOccurrences xs)"

text \<open>A content with every CR LF pair rewritten to a single LF.\<close>

fun crlfToLf :: "string \<Rightarrow> string" where
  "crlfToLf [] = []"
| "crlfToLf [c] = [c]"
| "crlfToLf (c # d # cs) =
     (if c = CR \<and> d = LF then LF # crlfToLf cs else c # crlfToLf (d # cs))"

fun hasCrLf :: "string \<Rightarrow> bool" where
  "hasCrLf [] = False"
| "hasCrLf [c] = False"
| "hasCrLf (c # d # cs) = ((c = CR \<and> d = LF) \<or> hasCrLf (d # cs))"

text \<open>
  Two lines that differ at most in the raw value of an assignment: the second is the
  first, or the first is an assignment line and the second agrees with it up to and
  including the separating \<open>=\<close>. Two contents differ only in raw values when their lines
  do, one by one.
\<close>

definition valueVariant :: "string \<Rightarrow> string \<Rightarrow> bool" where
  "valueVariant line line' \<longleftrightarrow>
     line' = line \<or>
     (case tokenizeLine line of
        Assignment r a \<Rightarrow>
          take (length line - length (rawValue a)) line'
            = take (length line - length (rawValue a)) line
      | _ \<Rightarrow> False)"

definition sameUpToValues :: "string \<Rightarrow> string \<Rightarrow> bool" where
  "sameUpToValues content content' \<longleftrightarrow>
     list_all2 valueVariant (splitLines content) (splitLines content')"

text \<open>
  The value of \<open>pending\<close> after the loop of the key indexer has read the given tokens,
  starting from a given value.
\<close>

fun pendingAfter :: "string list \<Rightarrow> token list \<Rightarrow> string list" where
  "pendingAfter p [] = p"
| "pendingAfter p (Blank r # ts) = pendingAfter (p @ [r]) ts"
| "pendingAfter p (Comment r # ts) = pendingAfter (p @ [r]) ts"
| "pendingAfter p (Assignment r a # ts) = pendingAfter [] ts"

text \<open>
  Two tokens that agree in everything the builder and the patcher read: the same blank
  or comment line, or two assignment tokens with the same key.
\<close>

fun sameKey :: "token \<Rightarrow> token \<Rightarrow> bool" where
  "sameKey (Blank r) (Blank r') = (r = r')"
| "sameKey (Comment r) (Comment r') = (r = r')"
| "sameKey (Assignment r a) (Assignment r' a') = (key a = key a')"
| "sameKey t t' = False"

text \<open>
  A line that carries no value of the given source tokens: \<open>KEY=\<close> for the key of one
  of their assignment tokens, or the raw line of one of their blank or comment tokens.
\<close>

definition valueFreeLine :: "token list \<Rightarrow> string \<Rightarrow> bool" where
  "valueFreeLine ts ln \<longleftrightarrow>
     (\<exists>k \<in> set (assignmentKeys ts). ln = k @ ''='')
     \<or> (\<exists>t \<in> set ts. \<not> isAssignment t \<and> ln = raw t)"

section \<open>Key indexer and merger: proofs\<close>


lemma filter_firstOccurrences:
  "filter P (firstOccurrences xs) = firstOccurrences (filter P xs)"
proof (induction xs)
  case Nil
  show ?case by simp
next
  case (Cons x xs)
  have comm: "filter P (filter (\<lambda>y. y \<noteq> x) (firstOccurrences xs))
              = filter (\<lambda>y. y \<noteq> x) (filter P (firstOccurrences xs))"
    by (simp add: conj_commute)
  show ?case
  proof (cases "P x")
    case True
    then show ?thesis using Cons.IH comm by simp
  next
    case False
    then have "filter P (filter (\<lambda>y. y \<noteq> x) (firstOccurrences xs))
               = filter P (firstOccurrences xs)"
      by (auto intro: filter_cong)
    with False Cons.IH show ?thesis by simp
  qed
qed

lemma set_firstOccurrences [simp]: "set (firstOccurrences xs) = set xs"
  by (induction xs) auto

lemma distinct_firstOccurrences [simp]: "distinct (firstOccurrences xs)"
  by (induction xs) auto

lemma indexLoop_keys:
  "map ekey (entries (indexLoop seen es pending ts))
   = map ekey es @ firstOccurrences (filter (\<lambda>k. k \<notin> seen) (assignmentKeys ts))"
proof (induction seen es pending ts rule: indexLoop.induct)
  case (4 seen es pending r a ts)
  show ?case
  proof (cases "key a \<in> seen")
    case True
    with 4 show ?thesis by simp
  next
    case False
    have "filter (\<lambda>k. k \<notin> insert (key a) seen) (assignmentKeys ts)
          = filter (\<lambda>y. y \<noteq> key a) (filter (\<lambda>k. k \<notin> seen) (assignmentKeys ts))"
      by (auto intro: filter_cong)
    with False 4 show ?thesis by (simp add: filter_firstOccurrences)
  qed
qed simp_all

lemma mergeLoop_keys:
  "map ekey (mergeLoop seen merged es)
   = map ekey merged @ firstOccurrences (filter (\<lambda>k. k \<notin> seen) (map ekey es))"
proof (induction seen merged es rule: mergeLoop.induct)
  case (2 seen merged e es)
  show ?case
  proof (cases "ekey e \<in> seen")
    case True
    with 2 show ?thesis by simp
  next
    case False
    have "filter (\<lambda>k. k \<notin> insert (ekey e) seen) (map ekey es)
          = filter (\<lambda>y. y \<noteq> ekey e) (filter (\<lambda>k. k \<notin> seen) (map ekey es))"
      by (auto intro: filter_cong)
    with False 2 show ?thesis by (simp add: filter_firstOccurrences)
  qed
qed simp

lemma mergeLoop_set:
  "set (mergeLoop seen merged es) \<subseteq> set merged \<union> {e \<in> set es. ekey e \<notin> seen}"
  by (induction seen merged es rule: mergeLoop.induct) auto

lemma firstOccurrences_idem [simp]: "firstOccurrences (firstOccurrences xs) = firstOccurrences xs"
proof (induction xs)
  case (Cons x xs)
  then show ?case by (simp add: filter_firstOccurrences[symmetric])
qed simp

lemma merged_keys:
  "map ekey (orderedEntries (uniqueKeyOrderFromTokens p s))
   = firstOccurrences (assignmentKeys p)
     @ filter (\<lambda>k. k \<notin> set (assignmentKeys p)) (firstOccurrences (assignmentKeys s))"
proof -
  have "ekey ` set (entries (indexLoop {} [] [] p)) = set (assignmentKeys p)"
  proof -
    have k: "map ekey (entries (indexLoop {} [] [] p)) = firstOccurrences (assignmentKeys p)"
      by (simp add: indexLoop_keys)
    have "ekey ` set (entries (indexLoop {} [] [] p)) = set (map ekey (entries (indexLoop {} [] [] p)))"
      by simp
    also have "\<dots> = set (assignmentKeys p)"
      by (simp only: k set_firstOccurrences)
    finally show ?thesis .
  qed
  then show ?thesis
    by (simp add: uniqueKeyOrderFromTokens_def Let_def buildKeyIndexWithLeadingComments_def
      mergeLoop_keys indexLoop_keys filter_firstOccurrences)
qed


lemma pendingAfter_run:
  "pendingAfter p ts =
     (if list_all (\<lambda>t. \<not> isAssignment t) ts then p @ map raw ts
      else map raw (rev (takeWhile (\<lambda>t. \<not> isAssignment t) (rev ts))))"
proof (induction p ts rule: pendingAfter.induct)
  case (1 p)
  show ?case by simp
next
  case (2 p r ts)
  then show ?case by (simp add: takeWhile_append list_all_iff)
next
  case (3 p r ts)
  then show ?case by (simp add: takeWhile_append list_all_iff)
next
  case (4 p r a ts)
  then show ?case by (auto simp: takeWhile_append list_all_iff)
qed

lemma indexLoop_entry:
  "e \<in> set (entries (indexLoop seen es pending ts)) \<Longrightarrow>
   e \<in> set es \<or>
   (\<exists>pre r a post. ts = pre @ Assignment r a # post \<and> key a = ekey e \<and> ekey e \<notin> seen
      \<and> ekey e \<notin> set (assignmentKeys pre) \<and> commentsBefore e = pendingAfter pending pre)"
proof (induction seen es pending ts rule: indexLoop.induct)
  case (1 seen es pending)
  then show ?case by simp
next
  case (2 seen es pending r ts)
  from 2 have "e \<in> set es \<or>
   (\<exists>pre r' a post. ts = pre @ Assignment r' a # post \<and> key a = ekey e \<and> ekey e \<notin> seen
      \<and> ekey e \<notin> set (assignmentKeys pre) \<and> commentsBefore e = pendingAfter (pending @ [r]) pre)"
    by simp
  then show ?case
  proof
    assume "e \<in> set es" then show ?thesis by simp
  next
    assume "\<exists>pre r' a post. ts = pre @ Assignment r' a # post \<and> key a = ekey e \<and> ekey e \<notin> seen
      \<and> ekey e \<notin> set (assignmentKeys pre) \<and> commentsBefore e = pendingAfter (pending @ [r]) pre"
    then obtain pre r' a post where h: "ts = pre @ Assignment r' a # post" "key a = ekey e"
      "ekey e \<notin> seen" "ekey e \<notin> set (assignmentKeys pre)"
      "commentsBefore e = pendingAfter (pending @ [r]) pre" by blast
    have "Blank r # ts = (Blank r # pre) @ Assignment r' a # post \<and> key a = ekey e \<and> ekey e \<notin> seen
      \<and> ekey e \<notin> set (assignmentKeys (Blank r # pre))
      \<and> commentsBefore e = pendingAfter pending (Blank r # pre)"
      using h by simp
    then show ?thesis by blast
  qed
next
  case (3 seen es pending r ts)
  from 3 have "e \<in> set es \<or>
   (\<exists>pre r' a post. ts = pre @ Assignment r' a # post \<and> key a = ekey e \<and> ekey e \<notin> seen
      \<and> ekey e \<notin> set (assignmentKeys pre) \<and> commentsBefore e = pendingAfter (pending @ [r]) pre)"
    by simp
  then show ?case
  proof
    assume "e \<in> set es" then show ?thesis by simp
  next
    assume "\<exists>pre r' a post. ts = pre @ Assignment r' a # post \<and> key a = ekey e \<and> ekey e \<notin> seen
      \<and> ekey e \<notin> set (assignmentKeys pre) \<and> commentsBefore e = pendingAfter (pending @ [r]) pre"
    then obtain pre r' a post where h: "ts = pre @ Assignment r' a # post" "key a = ekey e"
      "ekey e \<notin> seen" "ekey e \<notin> set (assignmentKeys pre)"
      "commentsBefore e = pendingAfter (pending @ [r]) pre" by blast
    have "Comment r # ts = (Comment r # pre) @ Assignment r' a # post \<and> key a = ekey e \<and> ekey e \<notin> seen
      \<and> ekey e \<notin> set (assignmentKeys (Comment r # pre))
      \<and> commentsBefore e = pendingAfter pending (Comment r # pre)"
      using h by simp
    then show ?thesis by blast
  qed
next
  case (4 seen es pending r a ts)
  show ?case
  proof (cases "key a \<in> seen")
    case True
    with 4 have "e \<in> set es \<or>
     (\<exists>pre r' a' post. ts = pre @ Assignment r' a' # post \<and> key a' = ekey e \<and> ekey e \<notin> seen
        \<and> ekey e \<notin> set (assignmentKeys pre) \<and> commentsBefore e = pendingAfter [] pre)"
      by simp
    then show ?thesis
    proof
      assume "e \<in> set es" then show ?thesis by simp
    next
      assume "\<exists>pre r' a' post. ts = pre @ Assignment r' a' # post \<and> key a' = ekey e \<and> ekey e \<notin> seen
        \<and> ekey e \<notin> set (assignmentKeys pre) \<and> commentsBefore e = pendingAfter [] pre"
      then obtain pre r' a' post where h: "ts = pre @ Assignment r' a' # post" "key a' = ekey e"
        "ekey e \<notin> seen" "ekey e \<notin> set (assignmentKeys pre)"
        "commentsBefore e = pendingAfter [] pre" by blast
      from h(3) True have ne: "ekey e \<noteq> key a" by auto
      have "Assignment r a # ts = (Assignment r a # pre) @ Assignment r' a' # post
        \<and> key a' = ekey e \<and> ekey e \<notin> seen
        \<and> ekey e \<notin> set (assignmentKeys (Assignment r a # pre))
        \<and> commentsBefore e = pendingAfter pending (Assignment r a # pre)"
        using h ne by simp
      then show ?thesis by blast
    qed
  next
    case False
    with 4 have "e \<in> set (es @ [\<lparr>ekey = key a, commentsBefore = pending\<rparr>]) \<or>
     (\<exists>pre r' a' post. ts = pre @ Assignment r' a' # post \<and> key a' = ekey e
        \<and> ekey e \<notin> insert (key a) seen
        \<and> ekey e \<notin> set (assignmentKeys pre) \<and> commentsBefore e = pendingAfter [] pre)"
      by simp
    then consider (old) "e \<in> set es" | (new) "e = \<lparr>ekey = key a, commentsBefore = pending\<rparr>"
      | (later) "\<exists>pre r' a' post. ts = pre @ Assignment r' a' # post \<and> key a' = ekey e
        \<and> ekey e \<notin> insert (key a) seen
        \<and> ekey e \<notin> set (assignmentKeys pre) \<and> commentsBefore e = pendingAfter [] pre"
      by auto
    then show ?thesis
    proof cases
      case old
      then show ?thesis by simp
    next
      case new
      have "Assignment r a # ts = [] @ Assignment r a # ts \<and> key a = ekey e \<and> ekey e \<notin> seen
        \<and> ekey e \<notin> set (assignmentKeys []) \<and> commentsBefore e = pendingAfter pending []"
        using new False by simp
      then show ?thesis by blast
    next
      case later
      then obtain pre r' a' post where h: "ts = pre @ Assignment r' a' # post" "key a' = ekey e"
        "ekey e \<notin> insert (key a) seen" "ekey e \<notin> set (assignmentKeys pre)"
        "commentsBefore e = pendingAfter [] pre" by blast
      have "Assignment r a # ts = (Assignment r a # pre) @ Assignment r' a' # post
        \<and> key a' = ekey e \<and> ekey e \<notin> seen
        \<and> ekey e \<notin> set (assignmentKeys (Assignment r a # pre))
        \<and> commentsBefore e = pendingAfter pending (Assignment r a # pre)"
        using h by simp
      then show ?thesis by blast
    qed
  qed
qed

lemma index_entry_first_occurrence:
  assumes "e \<in> set (entries (buildKeyIndexWithLeadingComments ts))"
  shows "\<exists>pre r a post. ts = pre @ Assignment r a # post \<and> key a = ekey e
      \<and> ekey e \<notin> set (assignmentKeys pre)
      \<and> commentsBefore e = map raw (rev (takeWhile (\<lambda>t. \<not> isAssignment t) (rev pre)))"
proof -
  from assms indexLoop_entry[of e "{}" "[]" "[]" ts]
  obtain pre r a post where h: "ts = pre @ Assignment r a # post" "key a = ekey e"
    "ekey e \<notin> set (assignmentKeys pre)" "commentsBefore e = pendingAfter [] pre"
    unfolding buildKeyIndexWithLeadingComments_def by auto
  have "pendingAfter [] pre = map raw (rev (takeWhile (\<lambda>t. \<not> isAssignment t) (rev pre)))"
  proof (cases "list_all (\<lambda>t. \<not> isAssignment t) pre")
    case True
    then have "takeWhile (\<lambda>t. \<not> isAssignment t) (rev pre) = rev pre"
      by (simp add: list_all_iff)
    then have "map raw (rev (takeWhile (\<lambda>t. \<not> isAssignment t) (rev pre))) = map raw pre"
      by (simp only: rev_rev_ident)
    with True show ?thesis by (simp only: pendingAfter_run if_True append_Nil)
  next
    case False
    then show ?thesis by (simp add: pendingAfter_run)
  qed
  with h show ?thesis by metis
qed


lemma merged_entry_origin:
  assumes "e \<in> set (orderedEntries (uniqueKeyOrderFromTokens p s))"
  shows "(ekey e \<in> set (assignmentKeys p) \<and> e \<in> set (entries (buildKeyIndexWithLeadingComments p)))
       \<or> (ekey e \<notin> set (assignmentKeys p) \<and> e \<in> set (entries (buildKeyIndexWithLeadingComments s)))"
proof -
  let ?ip = "buildKeyIndexWithLeadingComments p"
  have k: "map ekey (entries ?ip) = firstOccurrences (assignmentKeys p)"
    by (simp add: buildKeyIndexWithLeadingComments_def indexLoop_keys)
  have "set (map ekey (entries ?ip)) = set (assignmentKeys p)"
    by (simp only: k set_firstOccurrences)
  then have seen: "ekey ` set (entries ?ip) = set (assignmentKeys p)" by simp
  from assms have "e \<in> set (mergeLoop (ekey ` set (entries ?ip)) (entries ?ip)
                       (entries (buildKeyIndexWithLeadingComments s)))"
    by (simp add: uniqueKeyOrderFromTokens_def Let_def)
  with mergeLoop_set have "e \<in> set (entries ?ip)
       \<or> (e \<in> set (entries (buildKeyIndexWithLeadingComments s)) \<and> ekey e \<notin> ekey ` set (entries ?ip))"
    by blast
  then show ?thesis using seen by (metis imageI)
qed

text \<open>
  C4. For all primary and secondary token lists, the merged list holds each key exactly
  once: the keys of the primary list in first-occurrence order, then the keys found only
  in the secondary list in first-occurrence order. The comments attached to a key are
  the raw lines of the run of blank and comment tokens directly before the first
  occurrence of the key, in the primary list when the key occurs there and in the
  secondary list otherwise.
\<close>

theorem merged_key_list_correct:
  "map ekey (orderedEntries (uniqueKeyOrderFromTokens p s))
     = firstOccurrences (assignmentKeys p)
       @ filter (\<lambda>k. k \<notin> set (assignmentKeys p)) (firstOccurrences (assignmentKeys s))
   \<and> distinct (map ekey (orderedEntries (uniqueKeyOrderFromTokens p s)))
   \<and> (\<forall>e \<in> set (orderedEntries (uniqueKeyOrderFromTokens p s)).
        \<exists>pre r a post.
          (if ekey e \<in> set (assignmentKeys p) then p else s) = pre @ Assignment r a # post
          \<and> key a = ekey e \<and> ekey e \<notin> set (assignmentKeys pre)
          \<and> commentsBefore e = map raw (rev (takeWhile (\<lambda>t. \<not> isAssignment t) (rev pre))))"
proof (intro conjI ballI)
  show keys: "map ekey (orderedEntries (uniqueKeyOrderFromTokens p s))
     = firstOccurrences (assignmentKeys p)
       @ filter (\<lambda>k. k \<notin> set (assignmentKeys p)) (firstOccurrences (assignmentKeys s))"
    by (rule merged_keys)
  show "distinct (map ekey (orderedEntries (uniqueKeyOrderFromTokens p s)))"
    unfolding keys by auto
next
  fix e
  assume "e \<in> set (orderedEntries (uniqueKeyOrderFromTokens p s))"
  from merged_entry_origin[OF this]
  show "\<exists>pre r a post.
          (if ekey e \<in> set (assignmentKeys p) then p else s) = pre @ Assignment r a # post
          \<and> key a = ekey e \<and> ekey e \<notin> set (assignmentKeys pre)
          \<and> commentsBefore e = map raw (rev (takeWhile (\<lambda>t. \<not> isAssignment t) (rev pre)))"
  proof
    assume h: "ekey e \<in> set (assignmentKeys p) \<and> e \<in> set (entries (buildKeyIndexWithLeadingComments p))"
    then show ?thesis using index_entry_first_occurrence[of e p] by simp
  next
    assume h: "ekey e \<notin> set (assignmentKeys p) \<and> e \<in> set (entries (buildKeyIndexWithLeadingComments s))"
    then show ?thesis using index_entry_first_occurrence[of e s] by simp
  qed
qed

theorem merged_key_list_correct_witness:
  "map ekey (orderedEntries (uniqueKeyOrderFromTokens
       (map tokenizeLine [''a=1'', ''b=2'', ''c=3''])
       (map tokenizeLine [''b=4'', ''d=5'', ''a=6'', ''e=7''])))
     = [''a'', ''b'', ''c'', ''d'', ''e'']"
proof -
  have p: "assignmentKeys (map tokenizeLine [''a=1'', ''b=2'', ''c=3'']) = [''a'', ''b'', ''c'']"
    by code_simp
  have s: "assignmentKeys (map tokenizeLine [''b=4'', ''d=5'', ''a=6'', ''e=7''])
           = [''b'', ''d'', ''a'', ''e'']"
    by code_simp
  show ?thesis
    using merged_key_list_correct[of "map tokenizeLine [''a=1'', ''b=2'', ''c=3'']"
        "map tokenizeLine [''b=4'', ''d=5'', ''a=6'', ''e=7'']"]
    unfolding p s by simp
qed

lemma indexLoop_append:
  "indexLoop seen es pending (xs @ ys)
   = indexLoop (seen \<union> set (assignmentKeys xs)) (entries (indexLoop seen es pending xs))
       (trailing (indexLoop seen es pending xs)) ys"
proof (induction seen es pending xs rule: indexLoop.induct)
  case (4 seen es pending r a ts)
  then show ?case by (simp add: insert_absorb)
qed simp_all

lemma indexLoop_comments:
  "list_all (\<lambda>t. \<not> isAssignment t) cs \<Longrightarrow>
   indexLoop seen es pending (cs @ ys) = indexLoop seen es (pending @ map raw cs) ys"
proof (induction seen es pending cs rule: indexLoop.induct)
qed simp_all

text \<open>
  C8 (amended). When the key indexer meets an assignment token whose key it has already
  indexed, it adds no entry and clears the pending lines, as it does for a new key: the
  blank and comment lines \<open>cs\<close> directly before the duplicate attach to no key, and the
  loop goes on over the rest with the entries and keys of the tokens before and nothing
  pending.
\<close>

theorem duplicate_key_clears_pending:
  assumes "key a \<in> set (assignmentKeys pre)"
    and "list_all (\<lambda>t. \<not> isAssignment t) cs"
  shows "buildKeyIndexWithLeadingComments (pre @ cs @ Assignment r a # post)
         = indexLoop (set (assignmentKeys pre))
             (entries (buildKeyIndexWithLeadingComments pre)) [] post"
proof -
  let ?st = "indexLoop {} [] [] pre"
  have "indexLoop {} [] [] (pre @ cs @ Assignment r a # post)
        = indexLoop (set (assignmentKeys pre)) (entries ?st) (trailing ?st)
            (cs @ Assignment r a # post)"
    by (simp add: indexLoop_append)
  also have "\<dots> = indexLoop (set (assignmentKeys pre)) (entries ?st)
                     (trailing ?st @ map raw cs) (Assignment r a # post)"
    using assms(2) by (rule indexLoop_comments)
  also have "\<dots> = indexLoop (set (assignmentKeys pre)) (entries ?st) [] post"
    using assms(1) by simp
  finally show ?thesis by (simp add: buildKeyIndexWithLeadingComments_def)
qed

text \<open>
  The claim as stated has the comment before a duplicate stay pending for the next new
  key. Here \<open># c1\<close> stands before the duplicate \<open>A=2\<close>, and the entry of the next new
  key \<open>B\<close> holds \<open># c2\<close> only.
\<close>

theorem duplicate_key_keeps_pending_counterexample:
  "entries (buildKeyIndexWithLeadingComments
     (map tokenizeLine [''A=1'', ''# c1'', ''A=2'', ''# c2'', ''B=3'']))
   = [\<lparr>ekey = ''A'', commentsBefore = []\<rparr>, \<lparr>ekey = ''B'', commentsBefore = [''# c2'']\<rparr>]"
  by code_simp

theorem duplicate_key_clears_pending_witness:
  "key \<lparr>key = ''A'', val = ''2'', rawKey = ''A'', rawValue = ''2''\<rparr>
     \<in> set (assignmentKeys [Assignment ''A=1'' \<lparr>key = ''A'', val = ''1'', rawKey = ''A'', rawValue = ''1''\<rparr>])
   \<and> list_all (\<lambda>t. \<not> isAssignment t) [Comment ''# c1'']
   \<and> buildKeyIndexWithLeadingComments
       ([Assignment ''A=1'' \<lparr>key = ''A'', val = ''1'', rawKey = ''A'', rawValue = ''1''\<rparr>]
        @ [Comment ''# c1'']
        @ Assignment ''A=2'' \<lparr>key = ''A'', val = ''2'', rawKey = ''A'', rawValue = ''2''\<rparr>
        # [Comment ''# c2'', Assignment ''B=3'' \<lparr>key = ''B'', val = ''3'', rawKey = ''B'', rawValue = ''3''\<rparr>])
     = \<lparr>entries = [\<lparr>ekey = ''A'', commentsBefore = []\<rparr>,
                    \<lparr>ekey = ''B'', commentsBefore = [''# c2'']\<rparr>],
        trailing = []\<rparr>"
proof -
  have h1: "key \<lparr>key = ''A'', val = ''2'', rawKey = ''A'', rawValue = ''2''\<rparr>
     \<in> set (assignmentKeys [Assignment ''A=1'' \<lparr>key = ''A'', val = ''1'', rawKey = ''A'', rawValue = ''1''\<rparr>])"
    by simp
  have h2: "list_all (\<lambda>t. \<not> isAssignment t) [Comment ''# c1'']" by simp
  show ?thesis
    using h1 h2 duplicate_key_clears_pending[OF h1 h2, of "''A=2''"
        "[Comment ''# c2'', Assignment ''B=3'' \<lparr>key = ''B'', val = ''3'', rawKey = ''B'', rawValue = ''3''\<rparr>]"]
    by (simp add: buildKeyIndexWithLeadingComments_def)
qed

section \<open>Tokenizer: splitting and rejoining lines\<close>

lemma splitLines_nonempty [simp]: "splitLines c \<noteq> []"
  by (induction c rule: splitLines.induct) (auto split: list.splits, (case_tac "splitLines (d # cs)", auto)+)

lemma consHead_nonempty [simp]: "consHead c ls \<noteq> []"
  by (cases ls) simp_all

lemma joinNl_Cons: "ls \<noteq> [] \<Longrightarrow> joinNl (l # ls) = l @ LF # joinNl ls"
  by (cases ls) simp_all

lemma joinNl_consHead: "ls \<noteq> [] \<Longrightarrow> joinNl (consHead c ls) = c # joinNl ls"
proof (cases ls)
  case Nil
  assume "ls \<noteq> []"
  with Nil show ?thesis by simp
next
  case (Cons l ms)
  then show ?thesis by (cases ms) simp_all
qed

lemma joinNl_append:
  "xs \<noteq> [] \<Longrightarrow> ys \<noteq> [] \<Longrightarrow> joinNl (xs @ ys) = joinNl xs @ LF # joinNl ys"
proof (induction xs rule: joinNl.induct)
  case 1
  then show ?case by simp
next
  case (2 l)
  then show ?case by (simp add: joinNl_Cons)
next
  case (3 l m ls)
  then show ?case by simp
qed

lemma joinNl_splitLines: "joinNl (splitLines c) = crlfToLf c"
proof (induction c rule: splitLines.induct)
  case 1
  show ?case by simp
next
  case (2 c)
  show ?case by simp
next
  case (3 c d cs)
  then show ?case by (simp add: joinNl_Cons joinNl_consHead)
qed

lemma crlfToLf_id: "\<not> hasCrLf c \<Longrightarrow> crlfToLf c = c"
  by (induction c rule: crlfToLf.induct) simp_all

lemma raw_tokenizeLine [simp]: "raw (tokenizeLine l) = l"
  by (simp add: tokenizeLine_def split: option.splits)

lemma raw_tokenizeEnvFile: "map raw (tokenizeEnvFile c) = splitLines c"
  by (simp add: tokenizeEnvFile_def comp_def)

text \<open>
  C3 (amended). For every content, rejoining the raw lines of the tokens of
  \<open>tokenizeEnvFile\<close> with LF gives the content with every CR LF pair written as a single
  LF; for a content without a CR LF pair (bare LF line endings) it gives the content
  itself, character for character, with no allowance for the trailing newline needed.
\<close>

theorem tokenizer_round_trip:
  "joinNl (map raw (tokenizeEnvFile content)) = crlfToLf content
   \<and> (\<not> hasCrLf content \<longrightarrow> joinNl (map raw (tokenizeEnvFile content)) = content)"
  by (simp add: raw_tokenizeEnvFile joinNl_splitLines crlfToLf_id)

theorem tokenizer_round_trip_witness:
  "\<not> hasCrLf (''A=1'' @ [LF] @ ''# c'' @ [LF] @ [LF] @ ''B=2'' @ [LF])
   \<and> joinNl (map raw (tokenizeEnvFile (''A=1'' @ [LF] @ ''# c'' @ [LF] @ [LF] @ ''B=2'' @ [LF])))
     = ''A=1'' @ [LF] @ ''# c'' @ [LF] @ [LF] @ ''B=2'' @ [LF]"
proof -
  have h: "\<not> hasCrLf (''A=1'' @ [LF] @ ''# c'' @ [LF] @ [LF] @ ''B=2'' @ [LF])"
    by simp
  show ?thesis
    using h tokenizer_round_trip[of "''A=1'' @ [LF] @ ''# c'' @ [LF] @ [LF] @ ''B=2'' @ [LF]"]
    by simp
qed

text \<open>
  The claim as stated covers CR LF line endings too. The tokens keep no line
  terminators, so the rejoined text of a CR LF file has lost every CR, also inside the
  text, which no normalisation of the trailing newline makes up for.
\<close>

theorem tokenizer_round_trip_crlf_counterexample:
  "joinNl (map raw (tokenizeEnvFile (''A=1'' @ [CR, LF] @ ''B=2'' @ [CR, LF])))
     = ''A=1'' @ [LF] @ ''B=2'' @ [LF]
   \<and> singleTrailingNewline (joinNl (map raw (tokenizeEnvFile (''A=1'' @ [CR, LF] @ ''B=2'' @ [CR, LF]))))
     \<noteq> singleTrailingNewline (''A=1'' @ [CR, LF] @ ''B=2'' @ [CR, LF])"
  by code_simp

section \<open>Template patcher: proofs\<close>

lemma appendEntries_acc: "appendEntries lines es = lines @ appendEntries [] es"
proof (induction es arbitrary: lines)
  case Nil
  show ?case by simp
next
  case (Cons e es)
  show ?case
    using Cons.IH[of "(if commentsBefore e \<noteq> [] then lines @ commentsBefore e else lines) @ [ekey e @ ''='']"]
          Cons.IH[of "(if commentsBefore e \<noteq> [] then [] @ commentsBefore e else []) @ [ekey e @ ''='']"]
    by simp
qed

lemma appendEntries_nonempty: "es \<noteq> [] \<Longrightarrow> appendEntries [] es \<noteq> []"
proof (cases es)
  case Nil
  assume "es \<noteq> []"
  with Nil show ?thesis by simp
next
  case (Cons e es')
  have "appendEntries [] (e # es')
        = ((if commentsBefore e \<noteq> [] then [] @ commentsBefore e else []) @ [ekey e @ ''=''])
          @ appendEntries [] es'"
    using appendEntries_acc[of "(if commentsBefore e \<noteq> [] then [] @ commentsBefore e else []) @ [ekey e @ ''='']" es']
    by simp
  with Cons show ?thesis by simp
qed

lemma appended_output:
  assumes "missingEntries c e l \<noteq> []"
  shows "appendMissingKeysToExample st c e l
         = crlfToLf (trimEnd c) @ LF # sectionHeader st @ LF
           # joinNl (appendEntries [] (missingEntries c e l)) @ [LF]"
proof -
  let ?m = "missingEntries c e l"
  have "appendEntries (splitLines (trimEnd c) @ [sectionHeader st]) ?m
        = splitLines (trimEnd c) @ ([sectionHeader st] @ appendEntries [] ?m)"
    using appendEntries_acc[of "splitLines (trimEnd c) @ [sectionHeader st]" ?m] by simp
  moreover have "joinNl (splitLines (trimEnd c) @ ([sectionHeader st] @ appendEntries [] ?m))
        = joinNl (splitLines (trimEnd c)) @ LF # joinNl ([sectionHeader st] @ appendEntries [] ?m)"
    by (rule joinNl_append) simp_all
  moreover have "joinNl ([sectionHeader st] @ appendEntries [] ?m)
        = sectionHeader st @ LF # joinNl (appendEntries [] ?m)"
    using appendEntries_nonempty[OF assms] by (simp add: joinNl_Cons)
  ultimately show ?thesis
    using assms by (simp add: appendMissingKeysToExample_def Let_def joinNl_splitLines)
qed

lemma appended_unchanged:
  "missingEntries c e l = [] \<Longrightarrow> appendMissingKeysToExample st c e l = c"
  by (simp add: appendMissingKeysToExample_def Let_def)

lemma trimEnd_decomp:
  "\<exists>ws. c = trimEnd c @ ws \<and> list_all isSpace ws"
proof -
  have "rev c = takeWhile isSpace (rev c) @ dropWhile isSpace (rev c)" by simp
  then have "c = rev (dropWhile isSpace (rev c)) @ rev (takeWhile isSpace (rev c))"
    by (metis rev_append rev_rev_ident)
  moreover have "list_all isSpace (rev (takeWhile isSpace (rev c)))"
    by (simp add: list_all_iff) (meson set_takeWhileD)
  ultimately show ?thesis unfolding trimEnd_def by blast
qed

lemma trimEnd_last: "trimEnd c = [] \<or> \<not> isSpace (last (trimEnd c))"
proof (cases "dropWhile isSpace (rev c)")
  case Nil
  then show ?thesis by (simp add: trimEnd_def)
next
  case (Cons x xs)
  then have "\<not> isSpace x" using hd_dropWhile[of isSpace "rev c"] by simp
  with Cons show ?thesis by (simp add: trimEnd_def)
qed

lemma isSpace_LF [simp]: "isSpace LF"
  by (simp add: isSpace_def)

text \<open>
  C5 (amended). Without missing keys the patcher returns its input unchanged. With
  missing keys, the existing content up to its last character that is not whitespace
  stands at the start of the output, its lines in their order and position, with every
  CR LF pair written as LF. After it come whitespace only, a line break, the
  timestamped header on a line of its own, and the lines of the missing entries, each
  ended by LF. Nothing is said on the whitespace that follows the last character that
  is not whitespace, apart from the line break before the header.
\<close>

theorem patcher_frame:
  "(missingEntries c e l = [] \<longrightarrow> appendMissingKeysToExample st c e l = c)
   \<and> (missingEntries c e l \<noteq> [] \<longrightarrow>
        (\<exists>body ws gap.
           c = body @ ws \<and> list_all isSpace ws \<and> (body = [] \<or> \<not> isSpace (last body))
           \<and> list_all isSpace gap
           \<and> appendMissingKeysToExample st c e l
               = crlfToLf body @ gap @ LF # sectionHeader st @ LF
                 # joinNl (appendEntries [] (missingEntries c e l)) @ [LF]))"
proof (intro conjI impI)
  assume "missingEntries c e l = []"
  then show "appendMissingKeysToExample st c e l = c" by (rule appended_unchanged)
next
  assume m: "missingEntries c e l \<noteq> []"
  from trimEnd_decomp obtain ws where ws: "c = trimEnd c @ ws" "list_all isSpace ws" by blast
  have "appendMissingKeysToExample st c e l
        = crlfToLf (trimEnd c) @ [] @ LF # sectionHeader st @ LF
           # joinNl (appendEntries [] (missingEntries c e l)) @ [LF]"
    using appended_output[OF m] by simp
  moreover have "list_all isSpace []" by simp
  ultimately show "\<exists>body ws gap.
           c = body @ ws \<and> list_all isSpace ws \<and> (body = [] \<or> \<not> isSpace (last body))
           \<and> list_all isSpace gap
           \<and> appendMissingKeysToExample st c e l
               = crlfToLf body @ gap @ LF # sectionHeader st @ LF
                 # joinNl (appendEntries [] (missingEntries c e l)) @ [LF]"
    using ws trimEnd_last[of c] by blast
qed

theorem patcher_frame_witness:
  "missingEntries (''A=1'' @ [LF] @ [LF]) ''B=2'' [] \<noteq> []
   \<and> (\<exists>gap. list_all isSpace gap
        \<and> appendMissingKeysToExample ''2026-01-01 10:00:00'' (''A=1'' @ [LF] @ [LF]) ''B=2'' []
            = ''A=1'' @ gap @ LF
              # ''# --- Added by copy-env-keys-to-env-example on 2026-01-01 10:00:00 ---''
              @ LF # ''B='' @ [LF])"
proof -
  have m: "missingEntries (''A=1'' @ [LF] @ [LF]) ''B=2'' [] \<noteq> []"
    by code_simp
  have r: "joinNl (appendEntries [] (missingEntries (''A=1'' @ [LF] @ [LF]) ''B=2'' [])) = ''B=''"
    by code_simp
  from patcher_frame[of "''A=1'' @ [LF] @ [LF]" "''B=2''" "[]" "''2026-01-01 10:00:00''"] m
  obtain body ws gap where
    h: "''A=1'' @ [LF] @ [LF] = body @ ws" "list_all isSpace ws"
       "body = [] \<or> \<not> isSpace (last body)" "list_all isSpace gap"
       "appendMissingKeysToExample ''2026-01-01 10:00:00'' (''A=1'' @ [LF] @ [LF]) ''B=2'' []
          = crlfToLf body @ gap @ LF # sectionHeader ''2026-01-01 10:00:00'' @ LF
            # joinNl (appendEntries [] (missingEntries (''A=1'' @ [LF] @ [LF]) ''B=2'' [])) @ [LF]"
    by blast
  have "body = ''A=1''"
  proof -
    have "trimEnd (body @ ws) = body"
      using h(2,3)
      by (cases body rule: rev_cases)
         (auto simp: trimEnd_def list_all_iff dropWhile_append2 dropWhile_append3)
    moreover have "trimEnd (''A=1'' @ [LF] @ [LF]) = ''A=1''"
      by (simp add: trimEnd_def isSpace_def)
    ultimately show ?thesis using h(1) by simp
  qed
  with h(4,5) have "list_all isSpace gap
        \<and> appendMissingKeysToExample ''2026-01-01 10:00:00'' (''A=1'' @ [LF] @ [LF]) ''B=2'' []
            = ''A=1'' @ gap @ LF
              # ''# --- Added by copy-env-keys-to-env-example on 2026-01-01 10:00:00 ---''
              @ LF # ''B='' @ [LF]"
    unfolding r by (simp add: sectionHeader_def)
  with m show ?thesis by blast
qed

text \<open>
  The claim as stated keeps the whitespace inside the last content line and the line
  endings. The patcher removes all whitespace at the end of the content, so the space
  that ends the line \<open>A=1 \<close> is lost; and it splits at LF or CR LF and joins with LF, so
  every CR LF of the existing content comes back as LF.
\<close>

theorem patcher_frame_counterexample:
  "appendMissingKeysToExample ''2026-01-01 10:00:00'' (''A=1 '' @ [LF]) ''B=2'' []
     = ''A=1'' @ [LF]
       @ ''# --- Added by copy-env-keys-to-env-example on 2026-01-01 10:00:00 ---'' @ [LF]
       @ ''B='' @ [LF]
   \<and> appendMissingKeysToExample ''2026-01-01 10:00:00'' (''A=1'' @ [CR, LF] @ ''C=3'' @ [CR, LF]) ''B=2'' []
     = ''A=1'' @ [LF] @ ''C=3'' @ [LF]
       @ ''# --- Added by copy-env-keys-to-env-example on 2026-01-01 10:00:00 ---'' @ [LF]
       @ ''B='' @ [LF]"
  by code_simp

section \<open>Determinism and the clock\<close>

text \<open>
  C9 (amended). \<open>buildExampleFromScratch\<close> and \<open>markUnknownKeysInExample\<close> are functions
  of their input strings alone. The output of the existing-template pipeline depends on
  the input strings and, when there are keys to append, on the clock: two runs on the
  same strings give the same output exactly when no key is missing or \<open>nowStamp()\<close>
  returned the same string in both.
\<close>

theorem patch_pipeline_depends_on_stamp:
  "patchPipeline s1 c e l = patchPipeline s2 c e l
   \<longleftrightarrow> s1 = s2 \<or> missingEntries (markUnknownKeysInExample c e l) e l = []"
proof (cases "missingEntries (markUnknownKeysInExample c e l) e l = []")
  case True
  then show ?thesis by (simp add: patchPipeline_def appended_unchanged)
next
  case False
  then show ?thesis
    by (simp add: patchPipeline_def appended_output sectionHeader_def)
qed

theorem patch_pipeline_depends_on_stamp_witness:
  "patchPipeline ''2026-01-01 10:00:00'' (''A='' @ [LF]) (''A=1'' @ [LF]) []
   = patchPipeline ''2026-01-01 10:00:01'' (''A='' @ [LF]) (''A=1'' @ [LF]) []"
proof -
  have h: "missingEntries (markUnknownKeysInExample (''A='' @ [LF]) (''A=1'' @ [LF]) [])
             (''A=1'' @ [LF]) [] = []"
    by code_simp
  show ?thesis
    using h patch_pipeline_depends_on_stamp[of "''2026-01-01 10:00:00''" "''A='' @ [LF]"
        "''A=1'' @ [LF]" "[]" "''2026-01-01 10:00:01''"]
    by simp
qed

text \<open>
  Two runs on the same three strings, one second apart, with the key \<open>B\<close> to append:
  the outputs differ in the header line.
\<close>

theorem patch_pipeline_two_runs_counterexample:
  "patchPipeline ''2026-01-01 10:00:00'' (''A='' @ [LF]) (''A=1'' @ [LF] @ ''B=2'' @ [LF]) []
   \<noteq> patchPipeline ''2026-01-01 10:00:01'' (''A='' @ [LF]) (''A=1'' @ [LF] @ ''B=2'' @ [LF]) []"
  by code_simp

section \<open>Key comparison\<close>



lemma tokenizeLine_AssignmentD:
  assumes "tokenizeLine l = Assignment r a"
  shows "r = l" and "parseAssignment l = Some a" and "key a \<noteq> []"
    and "\<not> isBlankLine l" and "\<not> isCommentLine l"
  using assms by (auto simp: tokenizeLine_def split: if_splits option.splits)


lemma sourceTokens_empty [simp]: "sourceTokens [] = []"
  by (simp add: sourceTokens_def)





section \<open>No value leakage\<close>


lemma not_isSpace_eq [simp]: "\<not> isSpace (CHR ''='')"
  by (simp add: isSpace_def)

lemma scanEquals_bounds:
  "scanEquals s d i w = Some j \<Longrightarrow> i \<le> j \<and> j - i < length w \<and> w ! (j - i) = CHR ''=''"
proof (induction w arbitrary: s d i)
  case Nil
  then show ?case by simp
next
  case (Cons ch rest)
  show ?case
  proof (cases "ch = CHR ''='' \<and> \<not> s \<and> \<not> d")
    case True
    with Cons.prems have "j = i" by simp
    with True show ?thesis by simp
  next
    case False
    let ?s = "if ch = CHR 0x27 \<and> \<not> d then \<not> s else s"
    let ?d = "if ch = CHR 0x27 \<and> \<not> d then d else if ch = CHR 0x22 \<and> \<not> s then \<not> d else d"
    have step: "scanEquals s d i (ch # rest) = scanEquals ?s ?d (Suc i) rest"
      using False by auto
    from Cons.prems step have r: "scanEquals ?s ?d (Suc i) rest = Some j" by simp
    from Cons.IH[OF r] have "Suc i \<le> j" "j - Suc i < length rest" "rest ! (j - Suc i) = CHR ''=''"
      by simp_all
    moreover from \<open>Suc i \<le> j\<close> have "j - i = Suc (j - Suc i)" by simp
    ultimately show ?thesis by simp
  qed
qed

lemma scanEquals_prefix:
  "scanEquals s d i w = Some j \<Longrightarrow> scanEquals s d i (take (Suc (j - i)) w @ b) = Some j"
proof (induction w arbitrary: s d i)
  case Nil
  then show ?case by simp
next
  case (Cons ch rest)
  show ?case
  proof (cases "ch = CHR ''='' \<and> \<not> s \<and> \<not> d")
    case True
    with Cons.prems have "j = i" by simp
    with True show ?thesis by simp
  next
    case False
    let ?s = "if ch = CHR 0x27 \<and> \<not> d then \<not> s else s"
    let ?d = "if ch = CHR 0x27 \<and> \<not> d then d else if ch = CHR 0x22 \<and> \<not> s then \<not> d else d"
    have step: "\<And>v. scanEquals s d i (ch # v) = scanEquals ?s ?d (Suc i) v"
      using False by auto
    from Cons.prems step have r: "scanEquals ?s ?d (Suc i) rest = Some j" by simp
    from scanEquals_bounds[OF r] have "Suc i \<le> j" by simp
    then have e: "Suc (j - i) = Suc (Suc (j - Suc i))" by simp
    from Cons.IH[OF r] have "scanEquals ?s ?d (Suc i) (take (Suc (j - Suc i)) rest @ b) = Some j" .
    then show ?thesis unfolding e using step by simp
  qed
qed

lemma dropWhile_space_upto_eq:
  "\<exists>r0. \<forall>b. dropWhile isSpace (x0 @ CHR ''='' # b) = r0 @ CHR ''='' # b"
proof (cases "\<forall>c\<in>set x0. isSpace c")
  case True
  then have "\<forall>b. dropWhile isSpace (x0 @ CHR ''='' # b) = [] @ CHR ''='' # b"
    by (simp add: dropWhile_append)
  then show ?thesis by blast
next
  case False
  then have "\<forall>b. dropWhile isSpace (x0 @ CHR ''='' # b) = dropWhile isSpace x0 @ CHR ''='' # b"
    by (simp add: dropWhile_append)
  then show ?thesis by blast
qed

lemma strip_common:
  "\<exists>y0. \<forall>b. stripExportPrefix (x0 @ CHR ''='' # b) = y0 @ CHR ''='' # b"
proof -
  obtain r0 where r0: "\<And>b. dropWhile isSpace (x0 @ CHR ''='' # b) = r0 @ CHR ''='' # b"
    using dropWhile_space_upto_eq by blast
  show ?thesis
  proof (cases "take 6 r0 = ''export'' \<and> drop 6 r0 \<noteq> [] \<and> isSpace (hd (drop 6 r0))")
    case True
    then have len: "6 < length r0" by (cases "6 < length r0") auto
    obtain r1 where r1: "\<And>b. dropWhile isSpace (drop 6 r0 @ CHR ''='' # b) = r1 @ CHR ''='' # b"
      using dropWhile_space_upto_eq by blast
    have "\<forall>b. stripExportPrefix (x0 @ CHR ''='' # b) = r1 @ CHR ''='' # b"
    proof
      fix b
      have t: "take 6 (r0 @ CHR ''='' # b) = ''export''" using True len by simp
      have d: "drop 6 (r0 @ CHR ''='' # b) = drop 6 r0 @ CHR ''='' # b" using len by simp
      have h: "hd (drop 6 r0 @ CHR ''='' # b) = hd (drop 6 r0)" using True by simp
      show "stripExportPrefix (x0 @ CHR ''='' # b) = r1 @ CHR ''='' # b"
        unfolding stripExportPrefix_def Let_def r0 t d h r1 using True by simp
    qed
    then show ?thesis by blast
  next
    case False
    have "\<forall>b. stripExportPrefix (x0 @ CHR ''='' # b) = x0 @ CHR ''='' # b"
    proof
      fix b
      have "\<not> (take 6 (r0 @ CHR ''='' # b) = ''export''
               \<and> drop 6 (r0 @ CHR ''='' # b) \<noteq> []
               \<and> isSpace (hd (drop 6 (r0 @ CHR ''='' # b))))"
      proof
        assume a: "take 6 (r0 @ CHR ''='' # b) = ''export''
               \<and> drop 6 (r0 @ CHR ''='' # b) \<noteq> []
               \<and> isSpace (hd (drop 6 (r0 @ CHR ''='' # b)))"
        consider (long) "6 < length r0" | (six) "length r0 = 6" | (short) "length r0 < 6"
          by linarith
        then show False
        proof cases
          case long
          then have "take 6 (r0 @ CHR ''='' # b) = take 6 r0"
            "drop 6 (r0 @ CHR ''='' # b) = drop 6 r0 @ CHR ''='' # b" "drop 6 r0 \<noteq> []"
            by simp_all
          with a False show False by simp
        next
          case six
          then have "drop 6 (r0 @ CHR ''='' # b) = CHR ''='' # b" by simp
          with a show False by simp
        next
          case short
          have e1: "(r0 @ CHR ''='' # b) ! length r0 = CHR ''=''" by (rule nth_append_length)
          have e2: "take 6 (r0 @ CHR ''='' # b) ! length r0 = (r0 @ CHR ''='' # b) ! length r0"
            using short by (rule nth_take)
          from a have t: "take 6 (r0 @ CHR ''='' # b) = ''export''" by blast
          from e1 e2 have "''export'' ! length r0 = CHR ''=''" unfolding t by simp

          moreover have "length r0 < length ''export''" using short by simp
          then have "''export'' ! length r0 \<in> set ''export''" by (rule nth_mem)
          moreover have "CHR ''='' \<notin> set ''export''" by simp
          ultimately show False by metis
        qed
      qed
      then show "stripExportPrefix (x0 @ CHR ''='' # b) = x0 @ CHR ''='' # b"
        by (simp only: stripExportPrefix_def Let_def r0 if_False)
    qed
    then show ?thesis by blast
  qed
qed


lemma strip_suffix: "\<exists>p. l = p @ stripExportPrefix l"
proof (cases "stripExportPrefix l = l")
  case True
  then have "l = [] @ stripExportPrefix l" by simp
  then show ?thesis by blast
next
  case False
  then have e: "stripExportPrefix l = dropWhile isSpace (drop 6 (dropWhile isSpace l))"
    by (simp add: stripExportPrefix_def Let_def split: if_splits)
  let ?r = "dropWhile isSpace l"
  have "l = takeWhile isSpace l @ ?r" by simp
  also have "?r = take 6 ?r @ drop 6 ?r" by simp
  also have "drop 6 ?r = takeWhile isSpace (drop 6 ?r) @ dropWhile isSpace (drop 6 ?r)" by simp
  finally have "l = (takeWhile isSpace l @ take 6 ?r @ takeWhile isSpace (drop 6 ?r))
                    @ stripExportPrefix l"
    unfolding e by simp
  then show ?thesis by blast
qed

lemma isCommentLine_common:
  "isCommentLine (x0 @ CHR ''='' # b) = isCommentLine (x0 @ CHR ''='' # b')"
proof -
  obtain r0 where r0: "\<And>b. dropWhile isSpace (x0 @ CHR ''='' # b) = r0 @ CHR ''='' # b"
    using dropWhile_space_upto_eq by blast
  show ?thesis unfolding isCommentLine_def r0 by (cases r0) simp_all
qed

lemma value_variant_token:
  assumes t: "tokenizeLine l = Assignment r a"
    and v: "take (length l - length (rawValue a)) l' = take (length l - length (rawValue a)) l"
  shows "\<exists>a'. tokenizeLine l' = Assignment l' a' \<and> key a' = key a"
proof -
  note d = tokenizeLine_AssignmentD[OF t]
  let ?w = "stripExportPrefix l"
  from d(2) obtain idx where idx: "findUnquotedEqualsIndex ?w = Some idx"
    and ka: "key a = trim (take idx ?w)" and rv: "rawValue a = drop (Suc idx) ?w"
    by (auto simp: parseAssignment_def Let_def split: option.splits)
  from idx have sc: "scanEquals False False 0 ?w = Some idx"
    by (simp add: findUnquotedEqualsIndex_def)
  from scanEquals_bounds[OF sc] have lt: "idx < length ?w" and eq: "?w ! idx = CHR ''=''"
    by simp_all
  obtain p where p: "l = p @ ?w" using strip_suffix by blast
  define x0 where "x0 = p @ take idx ?w"
  define b where "b = drop (Suc idx) ?w"
  define b' where "b' = drop (length l - length (rawValue a)) l'"
  have w: "?w = take idx ?w @ CHR ''='' # b"
    using id_take_nth_drop[OF lt] eq by (simp add: b_def)
  have l: "l = x0 @ CHR ''='' # b"
    using p w by (simp add: x0_def)
  have "length l - length (rawValue a) = length x0 + 1"
  proof -
    have "length (rawValue a) = length b" by (simp add: rv b_def)
    moreover have "length l = length x0 + 1 + length b"
      by (subst l) simp
    ultimately show ?thesis by simp
  qed
  then have n: "length l - length (rawValue a) = Suc (length x0)" by simp
  have "take (Suc (length x0)) l = x0 @ [CHR ''='']"
    by (subst l) simp
  with v n have "take (Suc (length x0)) l' = x0 @ [CHR ''='']" by simp
  moreover have "l' = take (Suc (length x0)) l' @ drop (Suc (length x0)) l'" by simp
  ultimately have l': "l' = x0 @ CHR ''='' # b'"
    using n by (simp add: b'_def)
  obtain y0 where y0: "\<And>c. stripExportPrefix (x0 @ CHR ''='' # c) = y0 @ CHR ''='' # c"
    using strip_common by blast
  have "y0 @ CHR ''='' # b = take idx ?w @ CHR ''='' # b"
    using y0[of b] l w by simp
  then have y0eq: "y0 = take idx ?w" by simp
  then have ly: "length y0 = idx" using lt by simp
  have w': "stripExportPrefix l' = y0 @ CHR ''='' # b'" using y0[of b'] l' by simp
  have "take (Suc idx) ?w = y0 @ [CHR ''='']"
    using lt eq y0eq by (simp add: take_Suc_conv_app_nth)
  with scanEquals_prefix[OF sc, of b'] have "scanEquals False False 0 (y0 @ CHR ''='' # b') = Some idx"
    by simp
  then have idx': "findUnquotedEqualsIndex (stripExportPrefix l') = Some idx"
    by (simp add: findUnquotedEqualsIndex_def w')
  have tk: "take idx (stripExportPrefix l') = take idx ?w"
    using ly y0eq w' by simp
  define a' where "a' = \<lparr>key = trim (take idx (stripExportPrefix l')),
                   val = drop (Suc idx) (stripExportPrefix l'),
                   rawKey = take idx (stripExportPrefix l'),
                   rawValue = drop (Suc idx) (stripExportPrefix l')\<rparr>"
  have pa: "parseAssignment l' = Some a'"
    by (simp add: parseAssignment_def Let_def idx' a'_def)
  have k: "key a' = key a" by (simp add: a'_def tk ka)
  have nb: "\<not> isBlankLine l'"
    by (subst l') (auto simp: isBlankLine_def)
  have "isCommentLine l' = isCommentLine l"
    by (subst l', subst l) (rule isCommentLine_common)
  with d(5) have nc: "\<not> isCommentLine l'" by simp
  have "tokenizeLine l' = Assignment l' a'"
    using nb nc pa k d(3) by (simp add: tokenizeLine_def)
  with k show ?thesis by blast
qed

lemma sameKey_refl [simp]: "sameKey t t"
  by (cases t) simp_all

lemma valueVariant_sameKey:
  assumes "valueVariant l l'"
  shows "sameKey (tokenizeLine l) (tokenizeLine l')"
proof (cases "l' = l")
  case True
  then show ?thesis by simp
next
  case False
  with assms obtain r a where t: "tokenizeLine l = Assignment r a"
    and v: "take (length l - length (rawValue a)) l' = take (length l - length (rawValue a)) l"
    by (auto simp: valueVariant_def split: token.splits)
  from value_variant_token[OF t v] obtain a' where
    "tokenizeLine l' = Assignment l' a'" "key a' = key a" by blast
  with t show ?thesis by simp
qed

lemma sameKey_assignmentKeys:
  "list_all2 sameKey ts ts' \<Longrightarrow> assignmentKeys ts = assignmentKeys ts'"
proof (induction rule: list_all2_induct)
  case Nil
  show ?case by simp
next
  case (Cons t ts t' ts')
  then show ?case by (cases t; cases t') simp_all
qed

lemma sameKey_indexLoop:
  "list_all2 sameKey ts ts' \<Longrightarrow> indexLoop seen es pending ts = indexLoop seen es pending ts'"
proof (induction arbitrary: seen es pending rule: list_all2_induct)
  case Nil
  show ?case by simp
next
  case (Cons t ts t' ts')
  then show ?case by (cases t; cases t') simp_all
qed

lemma sameKey_leading:
  "list_all2 sameKey ts ts' \<Longrightarrow>
   map raw (takeWhile (\<lambda>t. \<not> isAssignment t) ts) = map raw (takeWhile (\<lambda>t. \<not> isAssignment t) ts')"
proof (induction rule: list_all2_induct)
  case Nil
  show ?case by simp
next
  case (Cons t ts t' ts')
  then show ?case by (cases t; cases t') simp_all
qed

lemma sameKey_merged:
  "list_all2 sameKey p p' \<Longrightarrow> list_all2 sameKey s s' \<Longrightarrow>
   uniqueKeyOrderFromTokens p s = uniqueKeyOrderFromTokens p' s'"
  by (simp add: uniqueKeyOrderFromTokens_def buildKeyIndexWithLeadingComments_def
      sameKey_indexLoop[of p p'] sameKey_indexLoop[of s s'])

lemma crlfToLf_empty: "crlfToLf c = [] \<Longrightarrow> c = []"
  by (cases c rule: crlfToLf.cases) (auto split: if_splits)

lemma splitLines_single_empty: "splitLines c = [[]] \<Longrightarrow> c = []"
proof -
  assume "splitLines c = [[]]"
  then have "joinNl (splitLines c) = []" by simp
  then show "c = []" by (simp add: joinNl_splitLines crlfToLf_empty)
qed

lemma sameKey_Blank_empty:
  "sameKey (tokenizeLine l) (tokenizeLine []) \<Longrightarrow> l = []"
  "sameKey (tokenizeLine []) (tokenizeLine l) \<Longrightarrow> l = []"
proof -
  have b: "tokenizeLine [] = Blank []" by (simp add: tokenizeLine_def isBlankLine_def)
  { assume "sameKey (tokenizeLine l) (tokenizeLine [])"
    then have "tokenizeLine l = Blank []" unfolding b by (cases "tokenizeLine l") simp_all
    then have "raw (tokenizeLine l) = []" by simp
    then show "l = []" by simp }
  { assume "sameKey (tokenizeLine []) (tokenizeLine l)"
    then have "tokenizeLine l = Blank []" unfolding b by (cases "tokenizeLine l") simp_all
    then have "raw (tokenizeLine l) = []" by simp
    then show "l = []" by simp }
qed

lemma sameUpToValues_tokens:
  assumes "sameUpToValues c c'"
  shows "list_all2 sameKey (sourceTokens c) (sourceTokens c')"
proof -
  from assms have lines: "list_all2 valueVariant (splitLines c) (splitLines c')"
    by (simp add: sameUpToValues_def)
  then have toks: "list_all2 sameKey (tokenizeEnvFile c) (tokenizeEnvFile c')"
    unfolding tokenizeEnvFile_def
    by (simp add: list_all2_map1 list_all2_map2) (erule list_all2_mono, rule valueVariant_sameKey)
  have "c = [] \<longleftrightarrow> c' = []"
  proof
    assume "c = []"
    with toks have "list_all2 sameKey [tokenizeLine []] (map tokenizeLine (splitLines c'))"
      by (simp add: tokenizeEnvFile_def)
    then obtain l' where "splitLines c' = [l']" "sameKey (tokenizeLine []) (tokenizeLine l')"
      by (auto simp: list_all2_Cons1 map_eq_Cons_conv)
    with sameKey_Blank_empty(2) have "splitLines c' = [[]]" by blast
    then show "c' = []" by (rule splitLines_single_empty)
  next
    assume "c' = []"
    with toks have "list_all2 sameKey (map tokenizeLine (splitLines c)) [tokenizeLine []]"
      by (simp add: tokenizeEnvFile_def)
    then obtain l where "splitLines c = [l]" "sameKey (tokenizeLine l) (tokenizeLine [])"
      by (auto simp: list_all2_Cons2 map_eq_Cons_conv)
    with sameKey_Blank_empty(1) have "splitLines c = [[]]" by blast
    then show "c = []" by (rule splitLines_single_empty)
  qed
  with toks show ?thesis by (auto simp: sourceTokens_def)
qed

lemma assignmentKeys_append [simp]:
  "assignmentKeys (xs @ ys) = assignmentKeys xs @ assignmentKeys ys"
  by (induction xs rule: assignmentKeys.induct) simp_all

lemma valueFreeLine_mono:
  "valueFreeLine ts ln \<Longrightarrow> set ts \<subseteq> set ts' \<Longrightarrow> set (assignmentKeys ts) \<subseteq> set (assignmentKeys ts')
   \<Longrightarrow> valueFreeLine ts' ln"
  unfolding valueFreeLine_def by blast

lemma valueFreeLine_left: "valueFreeLine p ln \<Longrightarrow> valueFreeLine (p @ s) ln"
  by (erule valueFreeLine_mono) simp_all

lemma valueFreeLine_right: "valueFreeLine s ln \<Longrightarrow> valueFreeLine (p @ s) ln"
  by (erule valueFreeLine_mono) simp_all

lemma indexLoop_trailing: "trailing (indexLoop seen es pending ts) = pendingAfter pending ts"
  by (induction seen es pending ts rule: indexLoop.induct) simp_all

lemma pendingAfter_lines:
  "ln \<in> set (pendingAfter [] ts) \<Longrightarrow> \<exists>t \<in> set ts. \<not> isAssignment t \<and> ln = raw t"
proof (cases "list_all (\<lambda>t. \<not> isAssignment t) ts")
  case True
  assume "ln \<in> set (pendingAfter [] ts)"
  with True show ?thesis by (auto simp: pendingAfter_run list_all_iff)
next
  case False
  assume "ln \<in> set (pendingAfter [] ts)"
  with False obtain t where "t \<in> set (takeWhile (\<lambda>t. \<not> isAssignment t) (rev ts))" "ln = raw t"
    by (auto simp: pendingAfter_run)
  then have "t \<in> set ts \<and> \<not> isAssignment t \<and> ln = raw t"
    using set_takeWhileD[of t "\<lambda>t. \<not> isAssignment t" "rev ts"] by simp
  then show ?thesis by blast
qed

lemma index_trailing_lines:
  "ln \<in> set (trailing (buildKeyIndexWithLeadingComments ts)) \<Longrightarrow> valueFreeLine ts ln"
  unfolding buildKeyIndexWithLeadingComments_def indexLoop_trailing valueFreeLine_def
  using pendingAfter_lines by blast

lemma index_entry_lines:
  assumes "e \<in> set (entries (buildKeyIndexWithLeadingComments ts))"
  shows "ekey e \<in> set (assignmentKeys ts)"
    and "ln \<in> set (commentsBefore e) \<Longrightarrow> valueFreeLine ts ln"
proof -
  from index_entry_first_occurrence[OF assms] obtain pre r a post where
    h: "ts = pre @ Assignment r a # post" "key a = ekey e"
       "commentsBefore e = map raw (rev (takeWhile (\<lambda>t. \<not> isAssignment t) (rev pre)))"
    by blast
  show "ekey e \<in> set (assignmentKeys ts)" using h(1,2) by simp
  assume "ln \<in> set (commentsBefore e)"
  with h(3) obtain t where "t \<in> set (takeWhile (\<lambda>t. \<not> isAssignment t) (rev pre))" "ln = raw t"
    by auto
  then have "t \<in> set pre \<and> \<not> isAssignment t \<and> ln = raw t"
    using set_takeWhileD[of t "\<lambda>t. \<not> isAssignment t" "rev pre"] by simp
  with h(1) show "valueFreeLine ts ln" unfolding valueFreeLine_def by auto
qed

lemma merged_entry_lines:
  assumes "e \<in> set (orderedEntries (uniqueKeyOrderFromTokens p s))"
  shows "valueFreeLine (p @ s) (ekey e @ ''='')"
    and "ln \<in> set (commentsBefore e) \<Longrightarrow> valueFreeLine (p @ s) ln"
proof -
  from merged_entry_origin[OF assms]
  have o: "e \<in> set (entries (buildKeyIndexWithLeadingComments p))
         \<or> e \<in> set (entries (buildKeyIndexWithLeadingComments s))" by blast
  then have "ekey e \<in> set (assignmentKeys (p @ s))"
    using index_entry_lines(1) by auto
  then show "valueFreeLine (p @ s) (ekey e @ ''='')" unfolding valueFreeLine_def by blast
  assume ln: "ln \<in> set (commentsBefore e)"
  from o show "valueFreeLine (p @ s) ln"
  proof
    assume "e \<in> set (entries (buildKeyIndexWithLeadingComments p))"
    from index_entry_lines(2)[OF this ln] show ?thesis by (rule valueFreeLine_left)
  next
    assume "e \<in> set (entries (buildKeyIndexWithLeadingComments s))"
    from index_entry_lines(2)[OF this ln] show ?thesis by (rule valueFreeLine_right)
  qed
qed

lemma emitEntries_lines:
  "ln \<in> set (emitEntries leading lines f es) \<Longrightarrow>
   ln \<in> set lines \<or> (\<exists>e \<in> set es. ln = ekey e @ ''='' \<or> ln \<in> set (commentsBefore e))"
proof (induction es arbitrary: lines f)
  case Nil
  then show ?case by simp
next
  case (Cons e es)
  let ?lines1 = "(if commentsBefore e \<noteq> [] then
               (if \<not> f \<and> leading \<noteq> [] then
                  (if leading = commentsBefore e then lines
                   else lines @ commentsBefore e)
                else lines @ commentsBefore e)
             else lines)"
  from Cons.prems have "ln \<in> set (emitEntries leading (?lines1 @ [ekey e @ ''='']) True es)"
    by (simp add: Let_def)
  from Cons.IH[OF this]
  have "ln \<in> set (?lines1 @ [ekey e @ ''=''])
        \<or> (\<exists>e \<in> set es. ln = ekey e @ ''='' \<or> ln \<in> set (commentsBefore e))" .
  moreover have "set ?lines1 \<subseteq> set lines \<union> set (commentsBefore e)" by auto
  ultimately show ?case by auto
qed

lemma appendEntries_lines:
  "ln \<in> set (appendEntries lines es) \<Longrightarrow>
   ln \<in> set lines \<or> (\<exists>e \<in> set es. ln = ekey e @ ''='' \<or> ln \<in> set (commentsBefore e))"
proof (induction es arbitrary: lines)
  case Nil
  then show ?case by simp
next
  case (Cons e es)
  let ?lines1 = "(if commentsBefore e \<noteq> [] then lines @ commentsBefore e else lines)"
  from Cons.prems have "ln \<in> set (appendEntries (?lines1 @ [ekey e @ ''='']) es)" by simp
  from Cons.IH[OF this]
  have "ln \<in> set (?lines1 @ [ekey e @ ''=''])
        \<or> (\<exists>e \<in> set es. ln = ekey e @ ''='' \<or> ln \<in> set (commentsBefore e))" .
  moreover have "set ?lines1 \<subseteq> set lines \<union> set (commentsBefore e)" by auto
  ultimately show ?case by auto
qed

lemma builder_lines:
  "\<exists>ls. buildExampleFromScratch e l = joinNl ls @ [LF]
        \<and> (\<forall>ln \<in> set ls. valueFreeLine (sourceTokens e @ sourceTokens l) ln)"
proof -
  let ?p = "sourceTokens e" and ?s = "sourceTokens l"
  let ?m = "uniqueKeyOrderFromTokens ?p ?s"
  let ?leading = "map raw (takeWhile (\<lambda>t. \<not> isAssignment t) ?p)"
  let ?trailing = "if trailingPrimary ?m \<noteq> [] then trailingPrimary ?m else trailingSecondary ?m"
  let ?ls = "emitEntries ?leading ?leading False (orderedEntries ?m) @ ?trailing"
  have b: "buildExampleFromScratch e l = joinNl ?ls @ [LF]"
    by (simp add: buildExampleFromScratch_def Let_def)
  have lead: "\<And>ln. ln \<in> set ?leading \<Longrightarrow> valueFreeLine (?p @ ?s) ln"
  proof -
    fix ln assume "ln \<in> set ?leading"
    then obtain t where "t \<in> set (takeWhile (\<lambda>t. \<not> isAssignment t) ?p)" "ln = raw t" by auto
    then have "t \<in> set ?p \<and> \<not> isAssignment t \<and> ln = raw t"
      using set_takeWhileD[of t "\<lambda>t. \<not> isAssignment t" ?p] by simp
    then show "valueFreeLine (?p @ ?s) ln" unfolding valueFreeLine_def by auto
  qed
  have trail: "\<And>ln. ln \<in> set ?trailing \<Longrightarrow> valueFreeLine (?p @ ?s) ln"
  proof -
    fix ln assume "ln \<in> set ?trailing"
    then have "ln \<in> set (trailing (buildKeyIndexWithLeadingComments ?p))
             \<or> ln \<in> set (trailing (buildKeyIndexWithLeadingComments ?s))"
      by (auto simp: uniqueKeyOrderFromTokens_def Let_def split: if_splits)
    then show "valueFreeLine (?p @ ?s) ln"
      using index_trailing_lines valueFreeLine_left valueFreeLine_right by blast
  qed
  have "\<forall>ln \<in> set ?ls. valueFreeLine (?p @ ?s) ln"
  proof
    fix ln assume "ln \<in> set ?ls"
    then consider (emitted) "ln \<in> set (emitEntries ?leading ?leading False (orderedEntries ?m))"
      | (trailing) "ln \<in> set ?trailing" by auto
    then show "valueFreeLine (?p @ ?s) ln"
    proof cases
      case emitted
      from emitEntries_lines[OF this] show ?thesis
        using lead merged_entry_lines by blast
    next
      case trailing
      then show ?thesis by (rule trail)
    qed
  qed
  with b show ?thesis by blast
qed

lemma patcher_lines:
  "appendMissingKeysToExample st x e l = x
   \<or> (\<exists>ls. appendMissingKeysToExample st x e l
             = joinNl (splitLines (trimEnd x) @ sectionHeader st # ls) @ [LF]
          \<and> (\<forall>ln \<in> set ls. valueFreeLine (sourceTokens e @ sourceTokens l) ln))"
proof (cases "missingEntries x e l = []")
  case True
  then show ?thesis by (simp add: appendMissingKeysToExample_def)
next
  case False
  let ?p = "sourceTokens e" and ?s = "sourceTokens l"
  let ?ms = "missingEntries x e l"
  have sub: "set ?ms \<subseteq> set (orderedEntries (uniqueKeyOrderFromTokens ?p ?s))"
    by (auto simp: missingEntries_def Let_def)
  have "appendEntries (splitLines (trimEnd x) @ [sectionHeader st]) ?ms
        = splitLines (trimEnd x) @ sectionHeader st # appendEntries [] ?ms"
    using appendEntries_acc[of "splitLines (trimEnd x) @ [sectionHeader st]" ?ms] by simp
  with False have o: "appendMissingKeysToExample st x e l
             = joinNl (splitLines (trimEnd x) @ sectionHeader st # appendEntries [] ?ms) @ [LF]"
    by (simp add: appendMissingKeysToExample_def Let_def)
  have "\<forall>ln \<in> set (appendEntries [] ?ms). valueFreeLine (?p @ ?s) ln"
  proof
    fix ln assume "ln \<in> set (appendEntries [] ?ms)"
    from appendEntries_lines[OF this]
    obtain en where "en \<in> set ?ms" "ln = ekey en @ ''='' \<or> ln \<in> set (commentsBefore en)"
      by auto
    with sub show "valueFreeLine (?p @ ?s) ln"
      using merged_entry_lines by blast
  qed
  with o show ?thesis by blast
qed

text \<open>
  C1. No value of a source assignment reaches the output. Two-run statement: when the
  source contents of two runs differ only in the raw values of assignment lines, the
  builder returns the same string in both runs, and so does the patcher, for every
  existing template and stamp. One-run statement: every line the builder emits, and
  every line the patcher appends after its header line, is \<open>KEY=\<close> for a key of the
  sources or the raw line of a blank or comment token of the sources; the raw line of
  an assignment token is never emitted.
\<close>

theorem no_value_leakage:
  assumes "sameUpToValues envContent envContent'"
    and "sameUpToValues envLocalContent envLocalContent'"
  shows "buildExampleFromScratch envContent envLocalContent
           = buildExampleFromScratch envContent' envLocalContent'
       \<and> appendMissingKeysToExample stamp exampleContent envContent envLocalContent
           = appendMissingKeysToExample stamp exampleContent envContent' envLocalContent'
       \<and> (\<exists>ls. buildExampleFromScratch envContent envLocalContent = joinNl ls @ [LF]
             \<and> (\<forall>ln \<in> set ls.
                   valueFreeLine (sourceTokens envContent @ sourceTokens envLocalContent) ln))
       \<and> (appendMissingKeysToExample stamp exampleContent envContent envLocalContent
             = exampleContent
           \<or> (\<exists>ls. appendMissingKeysToExample stamp exampleContent envContent envLocalContent
                     = joinNl (splitLines (trimEnd exampleContent) @ sectionHeader stamp # ls)
                       @ [LF]
                \<and> (\<forall>ln \<in> set ls.
                      valueFreeLine (sourceTokens envContent @ sourceTokens envLocalContent) ln)))"
proof -
  note e = sameUpToValues_tokens[OF assms(1)]
  note l = sameUpToValues_tokens[OF assms(2)]
  have m: "uniqueKeyOrderFromTokens (sourceTokens envContent) (sourceTokens envLocalContent)
           = uniqueKeyOrderFromTokens (sourceTokens envContent') (sourceTokens envLocalContent')"
    using e l by (rule sameKey_merged)
  have b: "buildExampleFromScratch envContent envLocalContent
           = buildExampleFromScratch envContent' envLocalContent'"
    by (simp add: buildExampleFromScratch_def Let_def m sameKey_leading[OF e])
  have "missingEntries exampleContent envContent envLocalContent
        = missingEntries exampleContent envContent' envLocalContent'"
    by (simp add: missingEntries_def Let_def m)
  then have "appendMissingKeysToExample stamp exampleContent envContent envLocalContent
           = appendMissingKeysToExample stamp exampleContent envContent' envLocalContent'"
    by (simp add: appendMissingKeysToExample_def)
  with b builder_lines[of envContent envLocalContent]
    patcher_lines[of stamp exampleContent envContent envLocalContent]
  show ?thesis by blast
qed

theorem no_value_leakage_witness:
  "sameUpToValues (''# db'' @ [LF] @ ''export KEY=secretvalue'' @ [LF])
                  (''# db'' @ [LF] @ ''export KEY=other'' @ [LF])
   \<and> sameUpToValues ''TOKEN=abc'' ''TOKEN=''
   \<and> buildExampleFromScratch (''# db'' @ [LF] @ ''export KEY=secretvalue'' @ [LF]) ''TOKEN=abc''
     = buildExampleFromScratch (''# db'' @ [LF] @ ''export KEY=other'' @ [LF]) ''TOKEN=''
   \<and> appendMissingKeysToExample ''2026-01-01 10:00:00'' (''A='' @ [LF])
        (''# db'' @ [LF] @ ''export KEY=secretvalue'' @ [LF]) ''TOKEN=abc''
     = appendMissingKeysToExample ''2026-01-01 10:00:00'' (''A='' @ [LF])
        (''# db'' @ [LF] @ ''export KEY=other'' @ [LF]) ''TOKEN=''"
proof -
  have h1: "sameUpToValues (''# db'' @ [LF] @ ''export KEY=secretvalue'' @ [LF])
                  (''# db'' @ [LF] @ ''export KEY=other'' @ [LF])"
    by code_simp
  have h2: "sameUpToValues ''TOKEN=abc'' ''TOKEN=''"
    by code_simp
  note r = no_value_leakage[OF h1 h2, of "''2026-01-01 10:00:00''" "''A='' @ [LF]"]
  from r have "buildExampleFromScratch (''# db'' @ [LF] @ ''export KEY=secretvalue'' @ [LF]) ''TOKEN=abc''
     = buildExampleFromScratch (''# db'' @ [LF] @ ''export KEY=other'' @ [LF]) ''TOKEN=''
   \<and> appendMissingKeysToExample ''2026-01-01 10:00:00'' (''A='' @ [LF])
        (''# db'' @ [LF] @ ''export KEY=secretvalue'' @ [LF]) ''TOKEN=abc''
     = appendMissingKeysToExample ''2026-01-01 10:00:00'' (''A='' @ [LF])
        (''# db'' @ [LF] @ ''export KEY=other'' @ [LF]) ''TOKEN=''"
    by blast
  with h1 h2 show ?thesis by blast
qed

section \<open>Inputs on which the code departs from its documentation\<close>

text \<open>
  C6. The fresh-build scenario. The final newline of \<open>.env\<close> makes the tokenizer end the
  token list with a blank token for the empty last line; the builder emits it as the
  trailing block and then adds its own newline, so the result ends with two newlines,
  not with the single one of the scenario.
\<close>

theorem fresh_build_scenario_output:
  "buildExampleFromScratch (''A=1'' @ [LF] @ ''# db config'' @ [LF] @ ''B=2'' @ [LF]) []
   = ''A='' @ [LF] @ ''# db config'' @ [LF] @ ''B='' @ [LF] @ [LF]"
  by code_simp

text \<open>
  C7. The annotator parses every template line as an assignment without asking first
  whether it is a blank or a comment line, as the tokenizer does. A comment line with
  an \<open>=\<close> outside quotes, here a commented-out assignment, is given the key
  \<open># DB_URL\<close>, which no source has, and receives the warning.
\<close>

theorem annotator_marks_comment_line:
  "markUnknownKeysInExample (''# DB_URL=postgres://localhost'' @ [LF] @ ''A='' @ [LF]) (''A=1'' @ [LF]) []
   = ''# NOTE: Key not found in .env or .env.local'' @ [LF]
     @ ''# DB_URL=postgres://localhost'' @ [LF] @ ''A='' @ [LF]"
  by code_simp

text \<open>
  C2. The existing-template pipeline run twice with the same sources. The first run
  appends the key \<open>B\<close> with its comment line \<open># DB=x\<close>; the second run, on the output
  of the first, takes that comment line for an assignment of an unknown key and puts
  the warning before it, so its output is not the output of the first run.
\<close>

theorem patch_pipeline_second_run_differs:
  "patchPipeline ''2026-01-01 10:00:00'' (''A='' @ [LF])
     (''A=1'' @ [LF] @ ''# DB=x'' @ [LF] @ ''B=2'' @ [LF]) []
   = ''A='' @ [LF]
     @ ''# --- Added by copy-env-keys-to-env-example on 2026-01-01 10:00:00 ---'' @ [LF]
     @ ''# DB=x'' @ [LF] @ ''B='' @ [LF]
   \<and> patchPipeline ''2026-01-01 10:00:00''
       (''A='' @ [LF]
        @ ''# --- Added by copy-env-keys-to-env-example on 2026-01-01 10:00:00 ---'' @ [LF]
        @ ''# DB=x'' @ [LF] @ ''B='' @ [LF])
       (''A=1'' @ [LF] @ ''# DB=x'' @ [LF] @ ''B=2'' @ [LF]) []
   = ''A='' @ [LF]
     @ ''# --- Added by copy-env-keys-to-env-example on 2026-01-01 10:00:00 ---'' @ [LF]
     @ ''# NOTE: Key not found in .env or .env.local'' @ [LF]
     @ ''# DB=x'' @ [LF] @ ''B='' @ [LF]"
  by code_simp

end
